theory Spec2Isabelle
  imports
    Complex_Main
    "HOL-Library.Char_ord"
    "HOL-Library.List_Lexorder"
    "HOL-Library.Multiset"
begin

section \<open>Python values handed to the tracker\<close>

text \<open>
  \<^verbatim>\<open>log_response\<close> and \<^verbatim>\<open>log_error\<close> accept any Python object and store it as it is.
  The values modelled are \<open>None\<close>, booleans, integers (unbounded), floats, strings,
  lists (a tuple is encoded like a list), dictionaries in insertion order, and
  \<open>PObject\<close>: any object the JSON encoder has no encoding for (a set, bytes, an
  instance of a user class).

  \<^item> The program never computes with a float, it only prints it: \<open>PFloat s\<close> is a
    float whose text, as the encoder's \<^verbatim>\<open>floatstr\<close> gives it, is \<open>s\<close>.
  \<^item> A dictionary key is a string, an integer, a boolean or \<open>None\<close>: the keys the
    encoder accepts, float keys apart, which are outside the model like the keys the
    encoder rejects in every mode.
  \<^item> A Python string is a \<open>string\<close> whose characters are the code points 0 to 255,
    ordered by code point.
\<close>

datatype pykey = KStr string | KInt int | KBool bool | KNone

datatype pyval =
    PNone
  | PBool bool
  | PInt int
  | PFloat string
  | PStr string
  | PList "pyval list"
  | PDict "(pykey \<times> pyval) list"
  | PObject

text \<open>The exception \<^verbatim>\<open>json.dumps\<close> raises on an object it cannot encode.\<close>

datatype error = TypeError

section \<open>The JSON encoder behind \<^verbatim>\<open>json.dumps\<close>\<close>

subsection \<open>Integers: \<^verbatim>\<open>int.__repr__\<close>\<close>

definition digit_char :: "nat \<Rightarrow> char" where
  "digit_char d = ''0123456789'' ! d"

fun nat_repr :: "nat \<Rightarrow> string" where
  "nat_repr n = (if n < 10 then [digit_char n]
                 else nat_repr (n div 10) @ [digit_char (n mod 10)])"

declare nat_repr.simps [simp del]

definition int_repr :: "int \<Rightarrow> string" where
  "int_repr i = (if i < 0 then CHR ''-'' # nat_repr (nat (- i)) else nat_repr (nat i))"

subsection \<open>Strings: \<^verbatim>\<open>py_encode_basestring_ascii\<close>\<close>

definition hex_digit :: "nat \<Rightarrow> char" where
  "hex_digit d = ''0123456789abcdef'' ! d"

text \<open>\<^verbatim>\<open>'{0:04x}'.format(n)\<close> for \<open>n < 0x10000\<close>.\<close>

definition hex4 :: "nat \<Rightarrow> string" where
  "hex4 n = [hex_digit (n div 4096 mod 16), hex_digit (n div 256 mod 16),
             hex_digit (n div 16 mod 16), hex_digit (n mod 16)]"

text \<open>
  The replacement of one character. \<^verbatim>\<open>ESCAPE_ASCII\<close> matches the backslash, the
  double quote and every character outside the range from the space to the tilde;
  \<^verbatim>\<open>ESCAPE_DCT\<close> holds the two-character escapes, and every other matched
  character becomes a backslash, \<open>u\<close> and four hexadecimal digits.
\<close>

definition escape_char :: "char \<Rightarrow> string" where
  "escape_char c =
     (if c = CHR 0x5C then [CHR 0x5C, CHR 0x5C]
      else if c = CHR 0x22 then [CHR 0x5C, CHR 0x22]
      else if c = CHR 0x08 then [CHR 0x5C, CHR ''b'']
      else if c = CHR 0x0C then [CHR 0x5C, CHR ''f'']
      else if c = CHR 0x0A then [CHR 0x5C, CHR ''n'']
      else if c = CHR 0x0D then [CHR 0x5C, CHR ''r'']
      else if c = CHR 0x09 then [CHR 0x5C, CHR ''t'']
      else if (of_char c :: nat) < 0x20 \<or> (of_char c :: nat) > 0x7E
        then CHR 0x5C # CHR ''u'' # hex4 (of_char c)
      else [c])"

definition py_encode_basestring_ascii :: "string \<Rightarrow> string" where
  "py_encode_basestring_ascii s = CHR 0x22 # concat (map escape_char s) @ [CHR 0x22]"

subsection \<open>Containers\<close>

text \<open>\<^verbatim>\<open>sep.join(parts)\<close>.\<close>

fun join :: "string \<Rightarrow> string list \<Rightarrow> string" where
  "join sep [] = []"
| "join sep [s] = s"
| "join sep (s # ss) = s @ sep @ join sep ss"

text \<open>Encoding the items of a container stops at the first one that raises.\<close>

fun collect :: "(error + 'a) list \<Rightarrow> error + 'a list" where
  "collect [] = Inr []"
| "collect (r # rs) =
     (case r of
        Inl e \<Rightarrow> Inl e
      | Inr x \<Rightarrow> (case collect rs of Inl e \<Rightarrow> Inl e | Inr xs \<Rightarrow> Inr (x # xs)))"

text \<open>
  The text of a key: \<^verbatim>\<open>_iterencode_dict\<close> takes a string as it is and converts
  \<open>True\<close>, \<open>False\<close>, \<open>None\<close> and an integer.
\<close>

fun key_text :: "pykey \<Rightarrow> string" where
  "key_text (KStr s) = s"
| "key_text (KBool b) = (if b then ''true'' else ''false'')"
| "key_text KNone = ''null''"
| "key_text (KInt i) = int_repr i"

text \<open>
  \<^verbatim>\<open>sorted(dct.items())\<close>. The keys of a Python dictionary are distinct, so two
  items are ordered by their keys alone. \<^verbatim>\<open><\<close> orders two strings by code point
  and two numbers by value, a boolean being the number 1 or 0; on a string and a
  number, and on \<open>None\<close> and anything, it raises \<open>TypeError\<close>. Sorting one item or
  none compares nothing; sorting more compares keys of different kinds whenever there
  are some.
\<close>

fun is_str_key :: "pykey \<Rightarrow> bool" where
  "is_str_key (KStr s) = True"
| "is_str_key k = False"

fun is_num_key :: "pykey \<Rightarrow> bool" where
  "is_num_key (KInt i) = True"
| "is_num_key (KBool b) = True"
| "is_num_key k = False"

fun str_of :: "pykey \<Rightarrow> string" where
  "str_of (KStr s) = s"
| "str_of k = []"

fun num_of :: "pykey \<Rightarrow> int" where
  "num_of (KInt i) = i"
| "num_of (KBool b) = (if b then 1 else 0)"
| "num_of k = 0"

definition py_sorted :: "(pykey \<times> 'v) list \<Rightarrow> error + (pykey \<times> 'v) list" where
  "py_sorted items =
     (if length items \<le> 1 then Inr items
      else if list_all (\<lambda>kv. is_str_key (fst kv)) items
        then Inr (sort_key (\<lambda>kv. str_of (fst kv)) items)
      else if list_all (\<lambda>kv. is_num_key (fst kv)) items
        then Inr (sort_key (\<lambda>kv. num_of (fst kv)) items)
      else Inl TypeError)"

text \<open>
  \<^verbatim>\<open>_iterencode\<close> with its item separator, its key separator and the
  \<^verbatim>\<open>sort_keys\<close> flag, the other options at their defaults.
\<close>

function (sequential) iterencode :: "string \<Rightarrow> string \<Rightarrow> bool \<Rightarrow> pyval \<Rightarrow> error + string" where
  "iterencode isep ksep sk (PStr s) = Inr (py_encode_basestring_ascii s)"
| "iterencode isep ksep sk PNone = Inr ''null''"
| "iterencode isep ksep sk (PBool b) = Inr (if b then ''true'' else ''false'')"
| "iterencode isep ksep sk (PInt i) = Inr (int_repr i)"
| "iterencode isep ksep sk (PFloat s) = Inr s"
| "iterencode isep ksep sk (PList xs) =
     (case collect (map (iterencode isep ksep sk) xs) of
        Inl e \<Rightarrow> Inl e
      | Inr ss \<Rightarrow> Inr (''['' @ join isep ss @ '']''))"
| "iterencode isep ksep sk (PDict kvs) =
     (case (if sk then py_sorted kvs else Inr kvs) of
        Inl e \<Rightarrow> Inl e
      | Inr items \<Rightarrow>
          (case collect
             (map (\<lambda>kv. case iterencode isep ksep sk (snd kv) of
                           Inl e \<Rightarrow> Inl e
                         | Inr s \<Rightarrow>
                             Inr (py_encode_basestring_ascii (key_text (fst kv)) @ ksep @ s))
                  items) of
             Inl e \<Rightarrow> Inl e
           | Inr ss \<Rightarrow> Inr (''{'' @ join isep ss @ ''}'')))"
| "iterencode isep ksep sk PObject = Inl TypeError"
  by pat_completeness auto

termination
proof (relation "measure (\<lambda>(isep, ksep, sk, v). size v)", goal_cases)
  case 1
  show ?case by simp
next
  case (2 isep ksep sk xs x)
  then show ?case by (simp add: less_Suc_eq_le size_list_estimation')
next
  case (3 isep ksep sk kvs items kv)
  then have "kv \<in> set kvs" by (auto simp: py_sorted_def split: if_splits)
  moreover have "size (snd kv) \<le> size_prod (\<lambda>_. 0) size kv"
    by (cases kv) simp
  ultimately have "size (snd kv) \<le> size_list (size_prod (\<lambda>_. 0) size) kvs"
    by (rule size_list_estimation')
  then show ?case by simp
qed

text \<open>
  \<^verbatim>\<open>json.dumps(obj, sort_keys=sk)\<close>: the default separators are a comma and a
  colon, each followed by a space.
\<close>

definition dumps :: "bool \<Rightarrow> pyval \<Rightarrow> error + string" where
  "dumps sk v = iterencode '', '' '': '' sk v"

section \<open>The tracker: class \<^verbatim>\<open>APIMiseryIndex\<close>\<close>

record error_record =
  timestamp :: string
  message :: pyval

record response_record =
  timestamp :: string
  data :: pyval

record tracker =
  api_name :: string
  responses :: "response_record list"
  errors :: "error_record list"

text \<open>\<^verbatim>\<open>APIMiseryIndex(api_name)\<close>.\<close>

definition init :: "string \<Rightarrow> tracker" where
  "init name = \<lparr>api_name = name, responses = [], errors = []\<rparr>"

text \<open>
  The two logging methods. \<open>now\<close> is the text \<^verbatim>\<open>datetime.now().isoformat()\<close>
  returns at the call.
\<close>

definition log_response :: "string \<Rightarrow> pyval \<Rightarrow> tracker \<Rightarrow> tracker" where
  "log_response now response_data t =
     t\<lparr>responses := responses t @ [\<lparr>timestamp = now, data = response_data\<rparr>]\<rparr>"

definition log_error :: "string \<Rightarrow> pyval \<Rightarrow> tracker \<Rightarrow> tracker" where
  "log_error now error_msg t =
     t\<lparr>errors := errors t @ [\<lparr>error_record.timestamp = now, message = error_msg\<rparr>]\<rparr>"

text \<open>\<^verbatim>\<open>s.count(c)\<close> for a one-character \<open>c\<close>.\<close>

definition count_char :: "string \<Rightarrow> char \<Rightarrow> int" where
  "count_char s c = int (length (filter (\<lambda>x. x = c) s))"

text \<open>
  \<^verbatim>\<open>calculate_misery\<close>, statement by statement. The score is a Python float; every
  value it takes here is an integer between 0 and 100, which a float holds exactly,
  and the model holds it as a real. \<^verbatim>\<open>self.responses[-2:]\<close> is the last two
  records, or all of them when there are fewer; the list comprehension encodes both
  before they are compared.
\<close>

definition calculate_misery :: "tracker \<Rightarrow> error + real" where
  "calculate_misery t =
     (if responses t = [] then Inr 0
      else
        case (if length (responses t) > 1
              then (case collect (map (\<lambda>r. dumps True (data r))
                                   (drop (length (responses t) - 2) (responses t))) of
                      Inl e \<Rightarrow> Inl e
                    | Inr last_two \<Rightarrow>
                        Inr (if last_two ! 0 \<noteq> last_two ! 1 then 0 + 40 else (0::real)))
              else Inr 0) of
          Inl e \<Rightarrow> Inl e
        | Inr misery1 \<Rightarrow>
            let misery2 = misery1 + of_int (min 30 (int (length (errors t)) * 10)) in
            (if responses t \<noteq> []
             then (case dumps False (data (last (responses t))) of
                     Inl e \<Rightarrow> Inl e
                   | Inr sample \<Rightarrow>
                       let nesting = count_char sample CHR ''{'' + count_char sample CHR ''['' in
                       Inr (min 100 (misery2 + of_int (min 30 (nesting * 2)))))
             else Inr (min 100 misery2)))"

text \<open>
  The same method with the rounding of float arithmetic written out: \<open>rnd\<close> rounds
  the exact result of an addition to a float. The integers added are converted
  exactly, and \<^verbatim>\<open>min\<close> returns one of its arguments.
\<close>

definition calculate_misery_fp :: "(real \<Rightarrow> real) \<Rightarrow> tracker \<Rightarrow> error + real" where
  "calculate_misery_fp rnd t =
     (if responses t = [] then Inr 0
      else
        case (if length (responses t) > 1
              then (case collect (map (\<lambda>r. dumps True (data r))
                                   (drop (length (responses t) - 2) (responses t))) of
                      Inl e \<Rightarrow> Inl e
                    | Inr last_two \<Rightarrow>
                        Inr (if last_two ! 0 \<noteq> last_two ! 1 then rnd (0 + 40) else (0::real)))
              else Inr 0) of
          Inl e \<Rightarrow> Inl e
        | Inr misery1 \<Rightarrow>
            let misery2 = rnd (misery1 + of_int (min 30 (int (length (errors t)) * 10))) in
            (if responses t \<noteq> []
             then (case dumps False (data (last (responses t))) of
                     Inl e \<Rightarrow> Inl e
                   | Inr sample \<Rightarrow>
                       let nesting = count_char sample CHR ''{'' + count_char sample CHR ''['' in
                       Inr (min 100 (rnd (misery2 + of_int (min 30 (nesting * 2))))))
             else Inr (min 100 misery2)))"

definition get_diagnosis :: "tracker \<Rightarrow> error + string" where
  "get_diagnosis t =
     (case calculate_misery t of
        Inl e \<Rightarrow> Inl e
      | Inr score \<Rightarrow>
          Inr (if score < 20
                 then api_name t @ '': Suspiciously stable. Check if it's actually running.''
               else if score < 50
                 then api_name t @ '': Mild annoyance. You'll only cry a little.''
               else if score < 80
                 then api_name t @ '': Significant suffering. Time for a strong drink.''
               else api_name t @ '': CRITICAL. Abandon all hope ye who integrate here.''))"

subsection \<open>Method calls and their effect on the tracker\<close>

text \<open>
  A call of one of the four methods returns an outcome and leaves a tracker behind.
  The two logging methods return \<open>None\<close>; \<^verbatim>\<open>calculate_misery\<close> and
  \<^verbatim>\<open>get_diagnosis\<close> assign to no attribute of \<open>self\<close>.
\<close>

datatype call = LogResponse string pyval | LogError string pyval | CalculateMisery | GetDiagnosis

datatype outcome = Returned_None | Score real | Diagnosis string | Raised error

fun exec :: "call \<Rightarrow> tracker \<Rightarrow> outcome \<times> tracker" where
  "exec (LogResponse now v) t = (Returned_None, log_response now v t)"
| "exec (LogError now v) t = (Returned_None, log_error now v t)"
| "exec CalculateMisery t =
     ((case calculate_misery t of Inl e \<Rightarrow> Raised e | Inr s \<Rightarrow> Score s), t)"
| "exec GetDiagnosis t =
     ((case get_diagnosis t of Inl e \<Rightarrow> Raised e | Inr d \<Rightarrow> Diagnosis d), t)"

text \<open>A caller that catches what is raised and goes on with the next call.\<close>

fun run :: "call list \<Rightarrow> tracker \<Rightarrow> tracker" where
  "run [] t = t"
| "run (c # cs) t = run cs (snd (exec c t))"

text \<open>The records a sequence of calls logs, in the order of the calls.\<close>

fun logged_responses :: "call list \<Rightarrow> response_record list" where
  "logged_responses [] = []"
| "logged_responses (LogResponse now v # cs) = \<lparr>timestamp = now, data = v\<rparr> # logged_responses cs"
| "logged_responses (c # cs) = logged_responses cs"

fun logged_errors :: "call list \<Rightarrow> error_record list" where
  "logged_errors [] = []"
| "logged_errors (LogError now m # cs) = \<lparr>error_record.timestamp = now, message = m\<rparr> # logged_errors cs"
| "logged_errors (c # cs) = logged_errors cs"

subsection \<open>The three penalty terms of \<^verbatim>\<open>calculate_misery\<close>\<close>

text \<open>The inconsistency penalty: the value added to \<open>misery\<close> by lines 48 to 52.\<close>

definition inconsistency_penalty :: "tracker \<Rightarrow> error + real" where
  "inconsistency_penalty t =
     (if length (responses t) > 1
      then (case collect (map (\<lambda>r. dumps True (data r))
                           (drop (length (responses t) - 2) (responses t))) of
              Inl e \<Rightarrow> Inl e
            | Inr last_two \<Rightarrow> Inr (if last_two ! 0 \<noteq> last_two ! 1 then 40 else 0))
      else Inr 0)"

text \<open>The error penalty: the value added by line 55.\<close>

definition error_penalty :: "tracker \<Rightarrow> real" where
  "error_penalty t = of_int (min 30 (int (length (errors t)) * 10))"

text \<open>The schema complexity penalty: the value added by lines 58 to 62.\<close>

definition structural_penalty :: "tracker \<Rightarrow> error + real" where
  "structural_penalty t =
     (if responses t \<noteq> []
      then (case dumps False (data (last (responses t))) of
              Inl e \<Rightarrow> Inl e
            | Inr sample \<Rightarrow>
                Inr (of_int (min 30 ((count_char sample CHR ''{'' + count_char sample CHR ''['') * 2))))
      else Inr 0)"

section \<open>Notions the properties are stated with\<close>

text \<open>
  The values an encoding accepts: no part of the value is an object without an
  encoding, and with sorted keys the items of every dictionary in it can be sorted.
\<close>

fun accepted :: "bool \<Rightarrow> pyval \<Rightarrow> bool" where
  "accepted sk (PList xs) = list_all (accepted sk) xs"
| "accepted sk (PDict kvs) =
     ((if sk then \<not> isl (py_sorted kvs) else True) \<and> list_all (\<lambda>kv. accepted sk (snd kv)) kvs)"
| "accepted sk PObject = False"
| "accepted sk v = True"

text \<open>
  A value is encodable when \<^verbatim>\<open>json.dumps\<close> accepts it, and serializable when
  \<^verbatim>\<open>json.dumps\<close> with sorted keys accepts it: then both encodings of
  \<^verbatim>\<open>calculate_misery\<close> succeed.
\<close>

definition encodable :: "pyval \<Rightarrow> bool" where
  "encodable v = accepted False v"

definition serializable :: "pyval \<Rightarrow> bool" where
  "serializable v = accepted True v"

text \<open>
  The keys of every Python dictionary are distinct, \<open>True\<close> being the same key as 1
  and \<open>False\<close> the same key as 0.
\<close>

fun key_norm :: "pykey \<Rightarrow> pykey" where
  "key_norm (KBool b) = KInt (if b then 1 else 0)"
| "key_norm k = k"

fun wf_keys :: "pyval \<Rightarrow> bool" where
  "wf_keys (PList xs) = list_all wf_keys xs"
| "wf_keys (PDict kvs) =
     (distinct (map (\<lambda>kv. key_norm (fst kv)) kvs) \<and> list_all (\<lambda>kv. wf_keys (snd kv)) kvs)"
| "wf_keys v = True"

text \<open>
  Two values that differ only in the order in which their dictionaries, at any depth,
  hold their items.
\<close>

inductive same_up_to_key_order :: "pyval \<Rightarrow> pyval \<Rightarrow> bool" where
  same: "same_up_to_key_order v v"
| lists: "list_all2 same_up_to_key_order xs ys \<Longrightarrow> same_up_to_key_order (PList xs) (PList ys)"
| dicts: "list_all2 (\<lambda>kv kv'. fst kv = fst kv' \<and> same_up_to_key_order (snd kv) (snd kv')) kvs kvs' \<Longrightarrow>
          mset kvs' = mset kvs2 \<Longrightarrow> same_up_to_key_order (PDict kvs) (PDict kvs2)"

text \<open>
  The compact string form the specification speaks of: the encoding without the
  spaces after the separators, \<^verbatim>\<open>json.dumps(obj, separators=(',', ':'))\<close>.
\<close>

definition compact_dumps :: "pyval \<Rightarrow> error + string" where
  "compact_dumps v = iterencode '','' '':'' False v"

text \<open>
  The payloads of the two most recently logged responses, oldest first: of the only
  one when one was logged, and none when none was.
\<close>

definition last_two_payloads :: "tracker \<Rightarrow> pyval list" where
  "last_two_payloads t = map data (drop (length (responses t) - 2) (responses t))"

subsection \<open>Auxiliary notions of the proofs\<close>

text \<open>The text the encoder produces for a value it accepts.\<close>

function (sequential) render :: "string \<Rightarrow> string \<Rightarrow> bool \<Rightarrow> pyval \<Rightarrow> string" where
  "render isep ksep sk (PStr s) = py_encode_basestring_ascii s"
| "render isep ksep sk PNone = ''null''"
| "render isep ksep sk (PBool b) = (if b then ''true'' else ''false'')"
| "render isep ksep sk (PInt i) = int_repr i"
| "render isep ksep sk (PFloat s) = s"
| "render isep ksep sk (PList xs) = ''['' @ join isep (map (render isep ksep sk) xs) @ '']''"
| "render isep ksep sk (PDict kvs) =
     ''{'' @ join isep
        (map (\<lambda>kv. py_encode_basestring_ascii (key_text (fst kv)) @ ksep
                     @ render isep ksep sk (snd kv))
           (case (if sk then py_sorted kvs else Inr kvs) of Inl e \<Rightarrow> [] | Inr items \<Rightarrow> items))
      @ ''}''"
| "render isep ksep sk PObject = []"
  by pat_completeness auto

termination
proof (relation "measure (\<lambda>(isep, ksep, sk, v). size v)", goal_cases)
  case 1
  show ?case by simp
next
  case (2 isep ksep sk xs x)
  then show ?case by (simp add: less_Suc_eq_le size_list_estimation')
next
  case (3 isep ksep sk kvs kv)
  then have "kv \<in> set kvs" by (auto simp: py_sorted_def split: if_splits sum.splits)
  moreover have "size (snd kv) \<le> size_prod (\<lambda>_. 0) size kv"
    by (cases kv) simp
  ultimately have "size (snd kv) \<le> size_list (size_prod (\<lambda>_. 0) size) kvs"
    by (rule size_list_estimation')
  then show ?case by simp
qed

section \<open>Example trackers\<close>

text \<open>The tracker the script builds when it is run as a program.\<close>

definition demo_first :: pyval where
  "demo_first = PDict [(KStr ''status'', PStr ''ok''), (KStr ''data'', PDict [(KStr ''id'', PInt 1)])]"

definition demo_second :: pyval where
  "demo_second =
     PDict [(KStr ''status'', PStr ''success''), (KStr ''result'', PDict [(KStr ''user_id'', PInt 1)])]"

definition demo :: tracker where
  "demo = log_error ''2024-01-01T00:00:03'' (PStr ''404: Endpoint moved to /v2 (but we're on v3)'')
            (log_response ''2024-01-01T00:00:02'' demo_second
              (log_response ''2024-01-01T00:00:01'' demo_first (init ''ExampleAPI'')))"

text \<open>Two responses that hold the same items in another order, at both levels.\<close>

definition keys_one :: pyval where
  "keys_one = PDict [(KStr ''status'', PStr ''ok''),
                     (KStr ''data'', PDict [(KStr ''id'', PInt 1), (KStr ''tags'', PList [PStr ''a''])])]"

definition keys_two :: pyval where
  "keys_two = PDict [(KStr ''data'', PDict [(KStr ''tags'', PList [PStr ''a'']), (KStr ''id'', PInt 1)]),
                     (KStr ''status'', PStr ''ok'')]"

definition reordered :: tracker where
  "reordered = log_response ''t2'' keys_two (log_response ''t1'' keys_one (init ''ExampleAPI''))"

text \<open>Errors only, one of them with a message that has no encoding.\<close>

definition errors_only :: tracker where
  "errors_only = log_error ''t2'' PObject (log_error ''t1'' (PStr ''timeout'') (init ''Unknown API''))"

text \<open>A payload whose encoding holds five opening delimiters, and trackers that score 20 and 80.\<close>

definition nested5 :: pyval where
  "nested5 = PDict [(KStr ''a'', PList [PList [PList [PList []]]])]"

definition score20 :: tracker where
  "score20 = log_error ''t2'' (PStr ''e1'') (log_response ''t1'' nested5 (init ''A''))"

definition score80 :: tracker where
  "score80 = log_error ''t5'' (PStr ''e3'') (log_error ''t4'' (PStr ''e2'') (log_error ''t3'' (PStr ''e1'')
               (log_response ''t2'' nested5 (log_response ''t1'' demo_first (init ''B'')))))"

text \<open>
  An object without an encoding as the oldest of three responses and as an error
  message, and the same object as the most recent response.
\<close>

definition stale_object :: tracker where
  "stale_object = log_error ''u4'' PObject
                    (log_response ''u3'' demo_second
                      (log_response ''u2'' demo_first
                        (log_response ''u1'' PObject (init ''Other''))))"

definition fresh_object :: tracker where
  "fresh_object = log_response ''t2'' PObject (log_response ''t1'' demo_first (init ''C''))"

text \<open>
  A payload with a dictionary whose keys are a number and a string, logged once and
  logged twice.
\<close>

definition mixed_keys :: pyval where
  "mixed_keys = PDict [(KStr ''x'', PDict [(KInt 1, PStr ''a''), (KStr ''b'', PInt 2)])]"

definition mixed_once :: tracker where
  "mixed_once = log_response ''t1'' mixed_keys (init ''D'')"

definition mixed_twice :: tracker where
  "mixed_twice = log_response ''t2'' mixed_keys mixed_once"

section \<open>The encoder raises exactly on the values it does not accept\<close>

lemma error_unique: "(e::error) = TypeError"
  by (cases e) simp

lemma sum_Inl_cases: "(x :: error + 'a) = Inl TypeError \<or> (\<exists>v. x = Inr v)"
  by (cases x) (simp_all add: error_unique)

lemma collect_map_Inr: "(\<And>x. x \<in> set xs \<Longrightarrow> f x = Inr (g x)) \<Longrightarrow> collect (map f xs) = Inr (map g xs)"
  by (induction xs) simp_all

lemma collect_map_Inl: "x \<in> set xs \<Longrightarrow> f x = Inl TypeError \<Longrightarrow> collect (map f xs) = Inl TypeError"
  by (induction xs) (auto split: sum.splits simp: error_unique)

lemma set_py_sorted: "py_sorted kvs = Inr items \<Longrightarrow> set items = set kvs"
  by (auto simp: py_sorted_def split: if_splits)

lemma iterencode_render:
  "iterencode isep ksep sk v =
     (if accepted sk v then Inr (render isep ksep sk v) else Inl TypeError)"
proof (induction isep ksep sk v rule: iterencode.induct)
  case (6 isep ksep sk xs)
  show ?case
  proof (cases "list_all (accepted sk) xs")
    case True
    then have "collect (map (iterencode isep ksep sk) xs) = Inr (map (render isep ksep sk) xs)"
      using 6 by (intro collect_map_Inr) (simp add: list_all_iff)
    with True show ?thesis by simp
  next
    case False
    then obtain x where x: "x \<in> set xs" "\<not> accepted sk x"
      by (auto simp: list_all_iff)
    then have "collect (map (iterencode isep ksep sk) xs) = Inl TypeError"
      using 6 by (intro collect_map_Inl [of x]) simp_all
    with False show ?thesis by simp
  qed
next
  case (7 isep ksep sk kvs)
  let ?sorted = "if sk then py_sorted kvs else Inr kvs"
  let ?f = "\<lambda>kv. case iterencode isep ksep sk (snd kv) of
                      Inl e \<Rightarrow> Inl e
                    | Inr s \<Rightarrow> Inr (py_encode_basestring_ascii (key_text (fst kv)) @ ksep @ s)"
  let ?g = "\<lambda>kv. py_encode_basestring_ascii (key_text (fst kv)) @ ksep
                  @ render isep ksep sk (snd kv)"
  show ?case
  proof (cases ?sorted)
    case (Inl e)
    then have "sk" "isl (py_sorted kvs)" by (auto split: if_splits)
    with Inl show ?thesis by (simp add: error_unique)
  next
    case (Inr items)
    then have items: "set items = set kvs" and ok: "(if sk then \<not> isl (py_sorted kvs) else True)"
      by (auto simp: set_py_sorted split: if_splits)
    show ?thesis
    proof (cases "list_all (\<lambda>kv. accepted sk (snd kv)) kvs")
      case True
      have "collect (map ?f items) = Inr (map ?g items)"
      proof (rule collect_map_Inr)
        fix kv assume kv: "kv \<in> set items"
        then have "accepted sk (snd kv)" using True items by (auto simp: list_all_iff)
        then show "?f kv = Inr (?g kv)"
          using 7 [OF Inr kv] by simp
      qed
      with True ok Inr show ?thesis by simp
    next
      case False
      then obtain kv where kv: "kv \<in> set items" "\<not> accepted sk (snd kv)"
        using items by (auto simp: list_all_iff)
      then have "?f kv = Inl TypeError" using 7 [OF Inr kv(1)] by simp
      with kv(1) have "collect (map ?f items) = Inl TypeError"
        by (rule collect_map_Inl)
      with False Inr show ?thesis by simp
    qed
  qed
qed simp_all

lemma accepted_sorted_plain: "accepted True v \<Longrightarrow> accepted False v"
proof (induction v)
  case (PList xs)
  then show ?case by (auto simp: list_all_iff)
next
  case (PDict kvs)
  have "accepted False (snd kv)" if "kv \<in> set kvs" for kv
  proof -
    have "snd kv \<in> Basic_BNFs.snds kv" by (cases kv) simp
    moreover have "accepted True (snd kv)" using PDict.prems that by (auto simp: list_all_iff)
    ultimately show ?thesis using PDict.IH that by blast
  qed
  then show ?case by (simp add: list_all_iff)
qed simp_all

lemma serializable_encodable: "serializable v \<Longrightarrow> encodable v"
  unfolding serializable_def encodable_def by (rule accepted_sorted_plain)

lemma dumps_sorted:
  "dumps True v = (if serializable v then Inr (render '', '' '': '' True v) else Inl TypeError)"
  by (simp add: dumps_def iterencode_render serializable_def)

lemma dumps_plain:
  "dumps False v = (if encodable v then Inr (render '', '' '': '' False v) else Inl TypeError)"
  by (simp add: dumps_def iterencode_render encodable_def)

lemma compact_dumps_render:
  "compact_dumps v = (if encodable v then Inr (render '','' '':'' False v) else Inl TypeError)"
  by (simp add: compact_dumps_def iterencode_render encodable_def)

section \<open>Counting a character in an encoding\<close>

lemma count_char_simps [simp]:
  "count_char [] c = 0"
  "count_char (x # xs) c = (if x = c then 1 else 0) + count_char xs c"
  "count_char (xs @ ys) c = count_char xs c + count_char ys c"
  by (simp_all add: count_char_def)

lemma count_char_nonneg: "0 \<le> count_char s c"
  by (simp add: count_char_def)

lemma count_char_join:
  "count_char sep c = 0 \<Longrightarrow> count_char (join sep ss) c = (\<Sum>s\<leftarrow>ss. count_char s c)"
  by (induction sep ss rule: join.induct) simp_all

lemma count_char_enclosed:
  "count_char sep c = 0 \<Longrightarrow>
   count_char (l @ join sep (map f xs) @ r) c
     = count_char l c + (\<Sum>x\<leftarrow>xs. count_char (f x) c) + count_char r c"
  by (simp add: count_char_join comp_def)

lemma count_char_render_seps:
  assumes seps: "count_char isep c = 0" "count_char ksep c = 0"
              "count_char isep' c = 0" "count_char ksep' c = 0"
  shows "count_char (render isep ksep sk v) c = count_char (render isep' ksep' sk v) c"
proof (induction v)
  case (PList xs)
  have "map (\<lambda>x. count_char (render isep ksep sk x) c) xs
        = map (\<lambda>x. count_char (render isep' ksep' sk x) c) xs"
    by (rule map_cong [OF refl]) (rule PList)
  then have "(\<Sum>x\<leftarrow>xs. count_char (render isep ksep sk x) c)
        = (\<Sum>x\<leftarrow>xs. count_char (render isep' ksep' sk x) c)"
    by (rule arg_cong [where f = sum_list])
  then show ?case
    by (simp only: render.simps count_char_enclosed [OF seps(1)] count_char_enclosed [OF seps(3)])
next
  case (PDict kvs)
  let ?items = "case (if sk then py_sorted kvs else Inr kvs) of Inl e \<Rightarrow> [] | Inr items \<Rightarrow> items"
  have "map (\<lambda>kv. count_char (py_encode_basestring_ascii (key_text (fst kv)) @ ksep @ render isep ksep sk (snd kv)) c) ?items
        = map (\<lambda>kv. count_char (py_encode_basestring_ascii (key_text (fst kv)) @ ksep' @ render isep' ksep' sk (snd kv)) c) ?items"
  proof (rule map_cong [OF refl])
    fix kv assume "kv \<in> set ?items"
    then have "kv \<in> set kvs" by (auto simp: set_py_sorted split: if_splits sum.splits)
    moreover have "snd kv \<in> Basic_BNFs.snds kv" by (cases kv) simp
    ultimately have "count_char (render isep ksep sk (snd kv)) c = count_char (render isep' ksep' sk (snd kv)) c"
      by (rule PDict)
    then show "count_char (py_encode_basestring_ascii (key_text (fst kv)) @ ksep @ render isep ksep sk (snd kv)) c
        = count_char (py_encode_basestring_ascii (key_text (fst kv)) @ ksep' @ render isep' ksep' sk (snd kv)) c"
      by (simp only: count_char_simps seps)
  qed
  then have "(\<Sum>kv\<leftarrow>?items. count_char (py_encode_basestring_ascii (key_text (fst kv)) @ ksep @ render isep ksep sk (snd kv)) c)
        = (\<Sum>kv\<leftarrow>?items. count_char (py_encode_basestring_ascii (key_text (fst kv)) @ ksep' @ render isep' ksep' sk (snd kv)) c)"
    by (rule arg_cong [where f = sum_list])
  then show ?case
    by (simp only: render.simps count_char_enclosed [OF seps(1)] count_char_enclosed [OF seps(3)])
next
  case PNone show ?case by (simp only: render.simps)
next
  case (PBool b) show ?case by (simp only: render.simps)
next
  case (PInt i) show ?case by (simp only: render.simps)
next
  case (PFloat s) show ?case by (simp only: render.simps)
next
  case (PStr s) show ?case by (simp only: render.simps)
next
  case PObject show ?case by (simp only: render.simps)
qed

section \<open>Sorted keys make the order of the items irrelevant\<close>

lemma filter_key_distinct:
  "distinct (map f zs) \<Longrightarrow> k \<in> set zs \<Longrightarrow> filter (\<lambda>x. f k = f x) zs = [k]"
proof (induction zs)
  case Nil
  then show ?case by simp
next
  case (Cons z zs)
  show ?case
  proof (cases "k = z")
    case True
    have "filter (\<lambda>x. f z = f x) zs = []"
      using Cons.prems(1) by (auto simp: filter_empty_conv image_iff)
    with True show ?thesis by simp
  next
    case False
    with Cons.prems have k: "k \<in> set zs" by simp
    then have "f k \<noteq> f z" using Cons.prems(1) by (auto simp: image_iff)
    with Cons.IH k Cons.prems(1) show ?thesis by simp
  qed
qed

lemma sort_key_permuted:
  fixes f :: "'a \<Rightarrow> 'k::linorder"
  assumes "mset xs = mset ys" and "distinct (map f xs)"
  shows "sort_key f xs = sort_key f ys"
proof (rule properties_for_sort_key)
  show "mset (sort_key f ys) = mset xs" using assms(1) by simp
  show "sorted (map f (sort_key f ys))" by simp
  have "mset (map f xs) = mset (map f ys)"
    using assms(1) by (metis mset_map)
  then have dy: "distinct (map f ys)"
    using assms(2) by (metis mset_eq_imp_distinct_iff)
  have "mset (map f (sort_key f ys)) = mset (map f ys)" by simp
  then have ds: "distinct (map f (sort_key f ys))"
    using dy by (metis mset_eq_imp_distinct_iff)
  fix k assume k: "k \<in> set (sort_key f ys)"
  then have "k \<in> set xs" using assms(1) by (metis mset_eq_setD set_sort)
  then have "filter (\<lambda>x. f k = f x) xs = [k]"
    using assms(2) by (intro filter_key_distinct)
  moreover have "filter (\<lambda>x. f k = f x) (sort_key f ys) = [k]"
    using ds k by (intro filter_key_distinct)
  ultimately show "filter (\<lambda>x. f k = f x) (sort_key f ys) = filter (\<lambda>x. f k = f x) xs"
    by simp
qed

lemma list_all2_insort_key:
  fixes f :: "'a \<Rightarrow> 'k::linorder"
  assumes keys: "\<And>x y. Q x y \<Longrightarrow> f x = f y"
  shows "list_all2 Q as bs \<Longrightarrow> Q a b \<Longrightarrow>
         list_all2 Q (insort_key f a as) (insort_key f b bs)"
proof (induction as bs rule: list_all2_induct)
  case Nil
  then show ?case by simp
next
  case (Cons x xs y ys)
  have "f a = f b" "f x = f y" using Cons keys by auto
  with Cons show ?case by simp
qed

lemma list_all2_sort_key:
  fixes f :: "'a \<Rightarrow> 'k::linorder"
  assumes keys: "\<And>x y. Q x y \<Longrightarrow> f x = f y"
  shows "list_all2 Q xs ys \<Longrightarrow> list_all2 Q (sort_key f xs) (sort_key f ys)"
  by (induction xs ys rule: list_all2_induct) (simp_all add: list_all2_insort_key [OF keys])

lemma list_all2_map_eq: "list_all2 (\<lambda>x y. f x = g y) xs ys \<Longrightarrow> map f xs = map g ys"
  by (induction xs ys rule: list_all2_induct) simp_all

lemma list_all2_list_all_eq:
  "list_all2 (\<lambda>x y. p x = q y) xs ys \<Longrightarrow> list_all p xs = list_all q ys"
  by (induction xs ys rule: list_all2_induct) simp_all

lemma distinct_map_transfer:
  "distinct (map f xs) \<Longrightarrow> (\<And>x y. x \<in> set xs \<Longrightarrow> y \<in> set xs \<Longrightarrow> g x = g y \<Longrightarrow> f x = f y)
     \<Longrightarrow> distinct (map g xs)"
proof (induction xs)
  case Nil
  show ?case by simp
next
  case (Cons x xs)
  have "g x \<notin> g ` set xs"
  proof
    assume "g x \<in> g ` set xs"
    then obtain y where y: "y \<in> set xs" "g x = g y" by auto
    then have "f x = f y" using Cons.prems(2) [of x y] by simp
    with y(1) Cons.prems(1) show False by auto
  qed
  moreover have "distinct (map g xs)"
    using Cons.prems by (intro Cons.IH) auto
  ultimately show ?case by simp
qed

lemma str_keys_norm: "is_str_key a \<Longrightarrow> is_str_key b \<Longrightarrow> str_of a = str_of b \<Longrightarrow> key_norm a = key_norm b"
  by (cases a; cases b) simp_all

lemma num_keys_norm: "is_num_key a \<Longrightarrow> is_num_key b \<Longrightarrow> num_of a = num_of b \<Longrightarrow> key_norm a = key_norm b"
  by (cases a; cases b) (simp_all split: if_splits)

text \<open>The order in which a dictionary holds its items does not change the sorted items.\<close>

lemma py_sorted_permuted:
  assumes perm: "mset xs = mset ys" and d: "distinct (map (\<lambda>kv. key_norm (fst kv)) xs)"
  shows "py_sorted xs = py_sorted ys"
proof (cases "length xs \<le> 1")
  case True
  have "length xs = length ys" using perm by (rule mset_eq_length)
  with True perm have "xs = ys"
    by (cases xs; cases ys) (auto simp: length_Suc_conv)
  then show ?thesis by simp
next
  case False
  have len: "length xs = length ys" using perm by (rule mset_eq_length)
  have sets: "set xs = set ys" using perm by (rule mset_eq_setD)
  have alls: "list_all (\<lambda>kv. is_str_key (fst kv)) xs = list_all (\<lambda>kv. is_str_key (fst kv)) ys"
    "list_all (\<lambda>kv. is_num_key (fst kv)) xs = list_all (\<lambda>kv. is_num_key (fst kv)) ys"
    using sets by (simp_all add: list_all_iff)
  have strs: "sort_key (\<lambda>kv. str_of (fst kv)) xs = sort_key (\<lambda>kv. str_of (fst kv)) ys"
    if "list_all (\<lambda>kv. is_str_key (fst kv)) xs"
  proof (rule sort_key_permuted [OF perm])
    show "distinct (map (\<lambda>kv. str_of (fst kv)) xs)"
    proof (rule distinct_map_transfer [OF d])
      fix x y assume "x \<in> set xs" "y \<in> set xs" "str_of (fst x) = str_of (fst y)"
      with that show "key_norm (fst x) = key_norm (fst y)"
        by (intro str_keys_norm) (simp_all add: list_all_iff)
    qed
  qed
  have nums: "sort_key (\<lambda>kv. num_of (fst kv)) xs = sort_key (\<lambda>kv. num_of (fst kv)) ys"
    if "list_all (\<lambda>kv. is_num_key (fst kv)) xs"
  proof (rule sort_key_permuted [OF perm])
    show "distinct (map (\<lambda>kv. num_of (fst kv)) xs)"
    proof (rule distinct_map_transfer [OF d])
      fix x y assume "x \<in> set xs" "y \<in> set xs" "num_of (fst x) = num_of (fst y)"
      with that show "key_norm (fst x) = key_norm (fst y)"
        by (intro num_keys_norm) (simp_all add: list_all_iff)
    qed
  qed
  show ?thesis
    unfolding py_sorted_def len [symmetric] alls [symmetric]
    using False strs nums by simp
qed

text \<open>Items that agree in their keys are sorted into the same places.\<close>

lemma py_sorted_related:
  fixes xs ys :: "(pykey \<times> 'v) list"
  assumes keys: "\<And>x y. Q x y \<Longrightarrow> fst x = fst y" and rel: "list_all2 Q xs ys"
  shows "isl (py_sorted xs) = isl (py_sorted ys) \<and>
         list_all2 Q (case py_sorted xs of Inl e \<Rightarrow> [] | Inr items \<Rightarrow> items)
                     (case py_sorted ys of Inl e \<Rightarrow> [] | Inr items \<Rightarrow> items)"
proof -
  have len: "length xs = length ys" using rel by (rule list_all2_lengthD)
  have "list_all2 (\<lambda>x y. fst x = fst y) xs ys"
    using rel by (rule list_all2_mono) (rule keys)
  then have fsts: "map fst xs = map fst ys" by (rule list_all2_map_eq)
  have "list_all (\<lambda>kv. P (fst kv)) xs = list_all (\<lambda>kv. P (fst kv)) ys" for P
  proof -
    have "list_all (\<lambda>kv. P (fst kv)) xs = list_all P (map fst xs)" by (simp add: list_all_iff)
    also have "\<dots> = list_all P (map fst ys)" by (simp only: fsts)
    also have "\<dots> = list_all (\<lambda>kv. P (fst kv)) ys" by (simp add: list_all_iff)
    finally show ?thesis .
  qed
  note alls = this [of is_str_key] this [of is_num_key]
  have s: "list_all2 Q (sort_key (\<lambda>kv. str_of (fst kv)) xs) (sort_key (\<lambda>kv. str_of (fst kv)) ys)"
    using rel by (rule list_all2_sort_key [rotated]) (simp add: keys)
  have n: "list_all2 Q (sort_key (\<lambda>kv. num_of (fst kv)) xs) (sort_key (\<lambda>kv. num_of (fst kv)) ys)"
    using rel by (rule list_all2_sort_key [rotated]) (simp add: keys)
  show ?thesis
    unfolding py_sorted_def len [symmetric] alls [symmetric]
    using rel s n by simp
qed

lemma key_order_render:
  assumes "same_up_to_key_order a b"
  shows "wf_keys a \<longrightarrow>
           render isep ksep True a = render isep ksep True b \<and> accepted True a = accepted True b"
  using assms
proof (induction rule: same_up_to_key_order.induct)
  case (same v)
  show ?case by simp
next
  case (lists xs ys)
  show ?case
  proof
    assume wf: "wf_keys (PList xs)"
    have "list_all2 (\<lambda>x y. wf_keys x \<and> render isep ksep True x = render isep ksep True y
                         \<and> accepted True x = accepted True y) xs ys"
      using lists wf by (auto simp: list_all2_conv_all_nth list_all_length)
    then have "list_all2 (\<lambda>x y. render isep ksep True x = render isep ksep True y) xs ys"
      and "list_all2 (\<lambda>x y. accepted True x = accepted True y) xs ys"
      by (auto elim: list_all2_mono)
    then have "map (render isep ksep True) xs = map (render isep ksep True) ys"
      and "list_all (accepted True) xs = list_all (accepted True) ys"
      by (auto dest: list_all2_map_eq list_all2_list_all_eq)
    then show "render isep ksep True (PList xs) = render isep ksep True (PList ys)
        \<and> accepted True (PList xs) = accepted True (PList ys)"
      by simp
  qed
next
  case (dicts kvs kvs' kvs2)
  show ?case
  proof
    assume wf: "wf_keys (PDict kvs)"
    let ?item = "\<lambda>kv. py_encode_basestring_ascii (key_text (fst kv)) @ ksep
                       @ render isep ksep True (snd kv)"
    let ?Q = "\<lambda>kv kv'. fst kv = fst kv' \<and> render isep ksep True (snd kv) = render isep ksep True (snd kv')
                         \<and> accepted True (snd kv) = accepted True (snd kv')"
    let ?items = "\<lambda>l. case py_sorted l of Inl e \<Rightarrow> [] | Inr items \<Rightarrow> items"
    have Q: "list_all2 ?Q kvs kvs'"
      using dicts(1) wf by (auto simp: list_all2_conv_all_nth list_all_length)
    then have "map fst kvs = map fst kvs'"
      by (intro list_all2_map_eq) (auto elim: list_all2_mono)
    then have "map key_norm (map fst kvs) = map key_norm (map fst kvs')" by simp
    then have "map (\<lambda>kv. key_norm (fst kv)) kvs = map (\<lambda>kv. key_norm (fst kv)) kvs'"
      by (simp add: comp_def)
    then have d': "distinct (map (\<lambda>kv. key_norm (fst kv)) kvs')" using wf by simp
    have perm: "py_sorted kvs' = py_sorted kvs2"
      using dicts(2) d' by (rule py_sorted_permuted)
    have rel: "isl (py_sorted kvs) = isl (py_sorted kvs') \<and> list_all2 ?Q (?items kvs) (?items kvs')"
      using Q by (intro py_sorted_related) auto
    then have "map ?item (?items kvs) = map ?item (?items kvs')"
      by (intro list_all2_map_eq) (auto elim: list_all2_mono)
    then have r: "render isep ksep True (PDict kvs) = render isep ksep True (PDict kvs2)"
      by (simp add: perm)
    have "list_all (\<lambda>kv. accepted True (snd kv)) kvs = list_all (\<lambda>kv. accepted True (snd kv)) kvs'"
      using Q by (intro list_all2_list_all_eq) (auto elim: list_all2_mono)
    moreover have "set kvs' = set kvs2" using dicts(2) by (rule mset_eq_setD)
    ultimately have "accepted True (PDict kvs) = accepted True (PDict kvs2)"
      using rel by (simp add: list_all_iff perm)
    with r show "render isep ksep True (PDict kvs) = render isep ksep True (PDict kvs2)
        \<and> accepted True (PDict kvs) = accepted True (PDict kvs2)"
      by simp
  qed
qed

lemma key_order_dumps:
  "same_up_to_key_order a b \<Longrightarrow> wf_keys a \<Longrightarrow> dumps True a = dumps True b"
  using key_order_render [of a b "'', ''" "'': ''"]
  by (simp add: dumps_def iterencode_render)

section \<open>The score as the sum of its three terms\<close>

lemma calculate_misery_clamped:
  "responses t \<noteq> [] \<Longrightarrow>
   calculate_misery t =
     (case inconsistency_penalty t of
        Inl e \<Rightarrow> Inl e
      | Inr a \<Rightarrow> (case structural_penalty t of
                    Inl e \<Rightarrow> Inl e
                  | Inr s \<Rightarrow> Inr (min 100 (a + error_penalty t + s))))"
  by (simp add: calculate_misery_def inconsistency_penalty_def structural_penalty_def
      error_penalty_def Let_def split: sum.splits)

lemma inconsistency_values: "inconsistency_penalty t = Inr a \<Longrightarrow> a = 0 \<or> a = 40"
  by (auto simp: inconsistency_penalty_def split: if_splits sum.splits)

lemma error_penalty_bounds: "0 \<le> error_penalty t \<and> error_penalty t \<le> 30"
  by (simp add: error_penalty_def)

lemma structural_bounds: "structural_penalty t = Inr s \<Longrightarrow> 0 \<le> s \<and> s \<le> 30"
  by (auto simp: structural_penalty_def count_char_nonneg split: if_splits sum.splits)

lemma calculate_misery_sum:
  assumes "responses t \<noteq> []"
  shows "calculate_misery t =
     (case inconsistency_penalty t of
        Inl e \<Rightarrow> Inl e
      | Inr a \<Rightarrow> (case structural_penalty t of
                    Inl e \<Rightarrow> Inl e
                  | Inr s \<Rightarrow> Inr (a + error_penalty t + s)))"
proof (cases "inconsistency_penalty t")
  case (Inl e)
  then show ?thesis by (simp add: calculate_misery_clamped [OF assms])
next
  case a: (Inr a)
  show ?thesis
  proof (cases "structural_penalty t")
    case (Inl e)
    with a show ?thesis by (simp add: calculate_misery_clamped [OF assms])
  next
    case s: (Inr s)
    have "a + error_penalty t + s \<le> 100"
      using inconsistency_values [OF a] error_penalty_bounds [of t] structural_bounds [OF s]
      by auto
    with a s show ?thesis by (simp add: calculate_misery_clamped [OF assms])
  qed
qed

lemma last_two_props:
  fixes rs :: "'a list"
  defines "l \<equiv> drop (length rs - 2) rs"
  shows "l = [] \<longleftrightarrow> rs = []"
    and "1 < length l \<longleftrightarrow> 1 < length rs"
    and "rs \<noteq> [] \<Longrightarrow> last l = last rs"
    and "set l \<subseteq> set rs"
    and "length rs \<le> 1 \<Longrightarrow> l = rs"
proof -
  show "l = [] \<longleftrightarrow> rs = []"
    unfolding l_def by (cases rs) auto
  show "1 < length l \<longleftrightarrow> 1 < length rs"
    unfolding l_def by auto
  show "rs \<noteq> [] \<Longrightarrow> last l = last rs"
    unfolding l_def by (cases rs) (auto intro!: last_drop)
  show "set l \<subseteq> set rs"
    unfolding l_def by (rule set_drop_subset)
  show "length rs \<le> 1 \<Longrightarrow> l = rs"
    unfolding l_def by simp
qed

lemma last_payload_in:
  "responses t \<noteq> [] \<Longrightarrow> data (last (responses t)) \<in> set (last_two_payloads t)"
proof -
  assume ne: "responses t \<noteq> []"
  let ?l = "drop (length (responses t) - 2) (responses t)"
  have "last ?l = last (responses t)" "?l \<noteq> []"
    using ne last_two_props(1,3) [of "responses t"] by auto
  then have "last (map data ?l) = data (last (responses t))" "map data ?l \<noteq> []"
    by (simp_all add: last_map)
  then show ?thesis
    unfolding last_two_payloads_def by (metis last_in_set)
qed

lemma inconsistency_raises_iff:
  "inconsistency_penalty t = Inl TypeError \<longleftrightarrow>
     (1 < length (responses t) \<and> (\<exists>p\<in>set (last_two_payloads t). \<not> serializable p))"
proof (cases "1 < length (responses t)")
  case False
  then show ?thesis by (simp add: inconsistency_penalty_def)
next
  case True
  let ?l = "drop (length (responses t) - 2) (responses t)"
  show ?thesis
  proof (cases "\<exists>r\<in>set ?l. \<not> serializable (data r)")
    case ex: True
    then obtain r where "r \<in> set ?l" "dumps True (data r) = Inl TypeError"
      by (auto simp: dumps_sorted)
    then have "collect (map (\<lambda>r. dumps True (data r)) ?l) = Inl TypeError"
      by (rule collect_map_Inl)
    with True ex show ?thesis
      by (simp add: inconsistency_penalty_def last_two_payloads_def)
  next
    case nex: False
    then have "collect (map (\<lambda>r. dumps True (data r)) ?l)
        = Inr (map (\<lambda>r. render '', '' '': '' True (data r)) ?l)"
      by (intro collect_map_Inr) (auto simp: dumps_sorted)
    with True nex show ?thesis
      by (simp add: inconsistency_penalty_def last_two_payloads_def)
  qed
qed

lemma structural_raises_iff:
  "structural_penalty t = Inl TypeError \<longleftrightarrow>
     (responses t \<noteq> [] \<and> \<not> encodable (data (last (responses t))))"
  by (simp add: structural_penalty_def dumps_plain)

lemma calculate_misery_raises_iff:
  "calculate_misery t = Inl TypeError \<longleftrightarrow>
     (1 < length (responses t) \<and> (\<exists>p\<in>set (last_two_payloads t). \<not> serializable p)) \<or>
     (responses t \<noteq> [] \<and> \<not> encodable (data (last (responses t))))"
proof (cases "responses t = []")
  case True
  then show ?thesis by (simp add: calculate_misery_def)
next
  case False
  have "calculate_misery t = Inl TypeError \<longleftrightarrow>
      inconsistency_penalty t = Inl TypeError \<or> structural_penalty t = Inl TypeError"
    using sum_Inl_cases [of "inconsistency_penalty t"] sum_Inl_cases [of "structural_penalty t"]
    by (auto simp: calculate_misery_sum [OF False])
  then show ?thesis
    unfolding inconsistency_raises_iff structural_raises_iff .
qed

lemma calculate_misery_total:
  assumes "\<forall>p\<in>set (last_two_payloads t). serializable p"
  shows "\<exists>v. calculate_misery t = Inr v"
proof -
  have "encodable (data (last (responses t)))" if "responses t \<noteq> []"
    using assms last_payload_in [OF that] by (auto intro: serializable_encodable)
  with assms have "calculate_misery t \<noteq> Inl TypeError"
    unfolding calculate_misery_raises_iff by blast
  then show ?thesis
    using sum_Inl_cases [of "calculate_misery t"] by auto
qed

lemma last_two_of_responses:
  "(\<forall>r\<in>set (responses t). serializable (data r)) \<Longrightarrow> \<forall>p\<in>set (last_two_payloads t). serializable p"
  unfolding last_two_payloads_def
  using set_drop_subset [of "length (responses t) - 2" "responses t"] by auto

lemma calculate_misery_range:
  "calculate_misery t = Inr v \<Longrightarrow> 0 \<le> v \<and> v \<le> 100"
proof (cases "responses t = []")
  case True
  assume "calculate_misery t = Inr v"
  with True show ?thesis by (simp add: calculate_misery_def)
next
  case False
  assume v: "calculate_misery t = Inr v"
  then obtain a s where a: "inconsistency_penalty t = Inr a" and s: "structural_penalty t = Inr s"
    and "v = a + error_penalty t + s"
    by (auto simp: calculate_misery_sum [OF False] split: sum.splits)
  then show ?thesis
    using inconsistency_values [OF a] error_penalty_bounds [of t] structural_bounds [OF s]
    by auto
qed

lemma calculate_misery_last_two:
  assumes "last_two_payloads t1 = last_two_payloads t2"
    and "length (errors t1) = length (errors t2)"
  shows "calculate_misery t1 = calculate_misery t2"
proof -
  let ?l1 = "drop (length (responses t1) - 2) (responses t1)"
  let ?l2 = "drop (length (responses t2) - 2) (responses t2)"
  have eq: "map data ?l1 = map data ?l2"
    using assms(1) by (simp add: last_two_payloads_def)
  then have len: "length ?l1 = length ?l2" by (rule map_eq_imp_length_eq)
  have e1: "(responses t1 = []) = (responses t2 = [])"
    using len last_two_props(1) [of "responses t1"] last_two_props(1) [of "responses t2"]
    by (metis length_0_conv)
  have e2: "(1 < length (responses t1)) = (1 < length (responses t2))"
    using len last_two_props(2) [of "responses t1"] last_two_props(2) [of "responses t2"]
    by simp
  have "map (dumps True) (map data ?l1) = map (dumps True) (map data ?l2)"
    using eq by simp
  then have e3: "map (\<lambda>r. dumps True (data r)) ?l1 = map (\<lambda>r. dumps True (data r)) ?l2"
    by (simp add: comp_def)
  have e4: "data (last (responses t1)) = data (last (responses t2))" if ne: "responses t1 \<noteq> []"
  proof -
    have ne2: "responses t2 \<noteq> []" using ne e1 by simp
    have "data (last (responses t1)) = last (map data ?l1)"
      using ne last_two_props(1,3) [of "responses t1"] by (simp add: last_map)
    also have "\<dots> = last (map data ?l2)" using eq by simp
    also have "\<dots> = data (last (responses t2))"
      using ne2 last_two_props(1,3) [of "responses t2"] by (simp add: last_map)
    finally show ?thesis .
  qed
  show ?thesis
  proof (cases "responses t1 = []")
    case True
    with e1 show ?thesis by (simp add: calculate_misery_def)
  next
    case False
    with e1 have ne2: "responses t2 \<noteq> []" by simp
    have "inconsistency_penalty t1 = inconsistency_penalty t2"
      unfolding inconsistency_penalty_def e2 e3 ..
    moreover have "structural_penalty t1 = structural_penalty t2"
      using False ne2 e4 by (simp add: structural_penalty_def)
    moreover have "error_penalty t1 = error_penalty t2"
      using assms(2) by (simp add: error_penalty_def)
    ultimately show ?thesis
      by (simp only: calculate_misery_sum [OF False] calculate_misery_sum [OF ne2])
  qed
qed

lemma last_two_older:
  "2 \<le> length (responses t) \<Longrightarrow> last_two_payloads (t\<lparr>responses := r # responses t\<rparr>) = last_two_payloads t"
proof -
  assume "2 \<le> length (responses t)"
  then obtain k where "length (responses t) = 2 + k" using le_Suc_ex by blast
  then show ?thesis by (simp add: last_two_payloads_def)
qed

lemma run_append_only:
  "run cs t = t\<lparr>responses := responses t @ logged_responses cs,
                errors := errors t @ logged_errors cs\<rparr>"
proof (induction cs arbitrary: t)
  case Nil
  show ?case by simp
next
  case (Cons c cs)
  show ?case
    by (cases c) (simp_all add: Cons.IH log_response_def log_error_def)
qed

lemma rnd_sums:
  assumes R: "\<forall>n::int. 0 \<le> n \<and> n \<le> 100 \<longrightarrow> rnd (of_int n) = of_int n"
    and e: "0 \<le> e" "e \<le> 30" and s: "0 \<le> s" "s \<le> 30"
  shows "rnd 40 = 40"
    and "rnd (of_int e) = of_int e"
    and "rnd (40 + of_int e) = 40 + of_int e"
    and "rnd (of_int e + of_int s) = of_int e + of_int s"
    and "rnd (40 + of_int e + of_int s) = 40 + of_int e + of_int s"
  using R [rule_format, of 40] R [rule_format, of e] R [rule_format, of "40 + e"]
    R [rule_format, of "e + s"] R [rule_format, of "40 + e + s"] e s
  by simp_all

lemma calculate_misery_fp_exact:
  assumes R: "\<forall>n::int. 0 \<le> n \<and> n \<le> 100 \<longrightarrow> rnd (of_int n) = of_int n"
  shows "calculate_misery_fp rnd t = calculate_misery t"
proof (cases "dumps False (data (last (responses t)))")
  case (Inl err)
  then show ?thesis
    by (simp add: calculate_misery_fp_def calculate_misery_def Let_def split: sum.splits)
next
  case D: (Inr sample)
  define e where "e = min 30 (int (length (errors t)) * 10)"
  define s where "s = min 30 ((count_char sample CHR ''{'' + count_char sample CHR ''['') * 2)"
  have e: "0 \<le> e" "e \<le> 30" by (simp_all add: e_def)
  have s: "0 \<le> s" "s \<le> 30"
    using count_char_nonneg [of sample "CHR ''{''"] count_char_nonneg [of sample "CHR ''[''"]
    by (simp_all add: s_def)
  note sums = rnd_sums [OF R e s]
  show ?thesis
    unfolding calculate_misery_fp_def calculate_misery_def Let_def D sum.case
      e_def [symmetric] s_def [symmetric]
    by (simp add: sums split: sum.splits)
qed

section \<open>The properties of the specification\<close>

text \<open>
  Claim C1. Whatever has been logged, when the payloads of the logged responses are
  serializable \<^verbatim>\<open>calculate_misery\<close> returns a score, and the score lies between 0
  and 100.
\<close>

theorem misery_in_range:
  "(\<forall>r\<in>set (responses t). serializable (data r)) \<Longrightarrow>
     \<exists>v. calculate_misery t = Inr v \<and> 0 \<le> v \<and> v \<le> 100"
proof -
  assume ser: "\<forall>r\<in>set (responses t). serializable (data r)"
  obtain v where v: "calculate_misery t = Inr v"
    using calculate_misery_total [OF last_two_of_responses [OF ser]] by blast
  with calculate_misery_range [OF v] show ?thesis by simp
qed

theorem misery_in_range_witness:
  "list_all (\<lambda>r. serializable (data r)) (responses demo) \<and>
   (\<exists>v. calculate_misery demo = Inr v \<and> 0 \<le> v \<and> v \<le> 100)"
proof -
  have h: "\<forall>r\<in>set (responses demo). serializable (data r)" by code_simp
  then have "list_all (\<lambda>r. serializable (data r)) (responses demo)"
    by (simp only: list_all_iff)
  with misery_in_range [OF h] show ?thesis by simp
qed

text \<open>
  Claim C2. With fewer than two responses the inconsistency term is 0. With two or
  more it is decided by the encodings with sorted keys of the two most recent
  payloads: 0 when they are equal, 40 when they differ; two payloads that differ only
  in the order of their dictionary items have equal encodings. The term is the first
  summand of the score.
\<close>

theorem inconsistency_term:
  "(length (responses t) < 2 \<longrightarrow> inconsistency_penalty t = Inr 0) \<and>
   (\<forall>rs r1 r2 c1 c2.
       responses t = rs @ [r1, r2] \<and> dumps True (data r1) = Inr c1 \<and> dumps True (data r2) = Inr c2
       \<longrightarrow> inconsistency_penalty t = Inr (if c1 = c2 then 0 else 40) \<and>
           (wf_keys (data r1) \<and> same_up_to_key_order (data r1) (data r2) \<longrightarrow> c1 = c2)) \<and>
   (responses t \<noteq> [] \<longrightarrow>
      calculate_misery t =
        (case inconsistency_penalty t of
           Inl e \<Rightarrow> Inl e
         | Inr a \<Rightarrow> (case structural_penalty t of
                       Inl e \<Rightarrow> Inl e
                     | Inr s \<Rightarrow> Inr (a + error_penalty t + s))))"
proof (intro conjI allI impI)
  assume "length (responses t) < 2"
  then show "inconsistency_penalty t = Inr 0" by (simp add: inconsistency_penalty_def)
next
  fix rs r1 r2 c1 c2
  assume h: "responses t = rs @ [r1, r2] \<and> dumps True (data r1) = Inr c1 \<and> dumps True (data r2) = Inr c2"
  then show "inconsistency_penalty t = Inr (if c1 = c2 then 0 else 40)"
    by (simp add: inconsistency_penalty_def)
  assume "wf_keys (data r1) \<and> same_up_to_key_order (data r1) (data r2)"
  then have "dumps True (data r1) = dumps True (data r2)" by (simp add: key_order_dumps)
  with h show "c1 = c2" by auto
next
  assume "responses t \<noteq> []"
  then show "calculate_misery t =
        (case inconsistency_penalty t of
           Inl e \<Rightarrow> Inl e
         | Inr a \<Rightarrow> (case structural_penalty t of
                       Inl e \<Rightarrow> Inl e
                     | Inr s \<Rightarrow> Inr (a + error_penalty t + s)))"
    by (rule calculate_misery_sum)
qed

theorem inconsistency_term_witness:
  "keys_one \<noteq> keys_two \<and> inconsistency_penalty reordered = Inr 0 \<and>
   inconsistency_penalty demo = Inr 40 \<and> inconsistency_penalty errors_only = Inr 0 \<and>
   calculate_misery reordered = Inr 6"
proof -
  have neq: "keys_one \<noteq> keys_two" by (simp add: keys_one_def keys_two_def)
  have short: "length (responses errors_only) < 2" by code_simp
  have r0: "inconsistency_penalty errors_only = Inr 0"
    using inconsistency_term [of errors_only] short by blast
  define c1 where "c1 = render '', '' '': '' True keys_one"
  define c2 where "c2 = render '', '' '': '' True keys_two"
  define r1 where "r1 = \<lparr>timestamp = ''t1'', data = keys_one\<rparr>"
  define r2 where "r2 = \<lparr>timestamp = ''t2'', data = keys_two\<rparr>"
  have ser1: "serializable keys_one" by code_simp
  have ser2: "serializable keys_two" by code_simp
  have hyp: "responses reordered = [] @ [r1, r2] \<and> dumps True (data r1) = Inr c1
      \<and> dumps True (data r2) = Inr c2"
    using ser1 ser2
    by (simp add: reordered_def log_response_def init_def r1_def r2_def c1_def c2_def
        dumps_sorted)
  have "wf_keys keys_one" by code_simp
  then have wf: "wf_keys (data r1)" by (simp add: r1_def)
  have inner: "same_up_to_key_order
      (PDict [(KStr ''id'', PInt 1), (KStr ''tags'', PList [PStr ''a''])])
      (PDict [(KStr ''tags'', PList [PStr ''a'']), (KStr ''id'', PInt 1)])"
    by (rule dicts [where kvs' = "[(KStr ''id'', PInt 1), (KStr ''tags'', PList [PStr ''a''])]"])
      (simp_all add: same)
  have "same_up_to_key_order keys_one keys_two"
    unfolding keys_one_def keys_two_def
    by (rule dicts [where kvs' = "[(KStr ''status'', PStr ''ok''),
          (KStr ''data'', PDict [(KStr ''tags'', PList [PStr ''a'']), (KStr ''id'', PInt 1)])]"])
      (simp_all add: same inner)
  then have perm: "same_up_to_key_order (data r1) (data r2)" by (simp add: r1_def r2_def)
  have all: "inconsistency_penalty reordered = Inr (if c1 = c2 then 0 else 40) \<and>
      (wf_keys (data r1) \<and> same_up_to_key_order (data r1) (data r2) \<longrightarrow> c1 = c2)"
    using inconsistency_term [of reordered] hyp by blast
  with wf perm have eq: "c1 = c2" by blast
  with all have r1: "inconsistency_penalty reordered = Inr 0" by simp
  define d1 where "d1 = render '', '' '': '' True demo_first"
  define d2 where "d2 = render '', '' '': '' True demo_second"
  define q1 where "q1 = \<lparr>timestamp = ''2024-01-01T00:00:01'', data = demo_first\<rparr>"
  define q2 where "q2 = \<lparr>timestamp = ''2024-01-01T00:00:02'', data = demo_second\<rparr>"
  have serd1: "serializable demo_first" by code_simp
  have serd2: "serializable demo_second" by code_simp
  have hyp2: "responses demo = [] @ [q1, q2] \<and> dumps True (data q1) = Inr d1
      \<and> dumps True (data q2) = Inr d2"
    using serd1 serd2
    by (simp add: demo_def log_response_def log_error_def init_def q1_def q2_def d1_def d2_def
        dumps_sorted)
  have "d1 \<noteq> d2" unfolding d1_def d2_def by code_simp
  moreover have "inconsistency_penalty demo = Inr (if d1 = d2 then 0 else 40)"
    using inconsistency_term [of demo] hyp2 by blast
  ultimately have r2: "inconsistency_penalty demo = Inr 40" by simp
  have ne: "responses reordered \<noteq> []" by code_simp
  have "calculate_misery reordered =
        (case inconsistency_penalty reordered of
           Inl e \<Rightarrow> Inl e
         | Inr a \<Rightarrow> (case structural_penalty reordered of
                       Inl e \<Rightarrow> Inl e
                     | Inr s \<Rightarrow> Inr (a + error_penalty reordered + s)))"
    using inconsistency_term [of reordered] ne by blast
  moreover have "structural_penalty reordered = Inr 6" by code_simp
  moreover have "error_penalty reordered = 0" by code_simp
  ultimately have "calculate_misery reordered = Inr 6" using r1 by simp
  with neq r0 r1 r2 show ?thesis by simp
qed

text \<open>
  Claim C3. With at least one response logged, the error term is the smaller of 30
  and ten times the number of logged errors: 0, 10, 20 and 30 for none, one, two and
  three errors, and 30 for every larger number. It is what the logged errors add to
  the score: the score is the score of the same tracker without its errors, plus the
  error term.
\<close>

theorem error_term:
  "responses t \<noteq> [] \<Longrightarrow>
     error_penalty t = of_int (min 30 (10 * int (length (errors t)))) \<and>
     (length (errors t) = 0 \<longrightarrow> error_penalty t = 0) \<and>
     (length (errors t) = 1 \<longrightarrow> error_penalty t = 10) \<and>
     (length (errors t) = 2 \<longrightarrow> error_penalty t = 20) \<and>
     (3 \<le> length (errors t) \<longrightarrow> error_penalty t = 30) \<and>
     calculate_misery t =
       (case calculate_misery (t\<lparr>errors := []\<rparr>) of
          Inl e \<Rightarrow> Inl e
        | Inr v0 \<Rightarrow> Inr (v0 + error_penalty t))"
proof -
  assume ne: "responses t \<noteq> []"
  let ?t0 = "t\<lparr>errors := []\<rparr>"
  have ne0: "responses ?t0 \<noteq> []" using ne by simp
  have same: "inconsistency_penalty ?t0 = inconsistency_penalty t"
    "structural_penalty ?t0 = structural_penalty t" "error_penalty ?t0 = 0"
    by (simp_all add: inconsistency_penalty_def structural_penalty_def error_penalty_def)
  have link: "calculate_misery t =
       (case calculate_misery ?t0 of Inl e \<Rightarrow> Inl e | Inr v0 \<Rightarrow> Inr (v0 + error_penalty t))"
    unfolding calculate_misery_sum [OF ne] calculate_misery_sum [OF ne0] same
    by (simp split: sum.splits)
  have "error_penalty t = of_int (min 30 (10 * int (length (errors t))))"
    by (simp add: error_penalty_def mult.commute)
  moreover have "length (errors t) = 0 \<longrightarrow> error_penalty t = 0"
    "length (errors t) = 1 \<longrightarrow> error_penalty t = 10"
    "length (errors t) = 2 \<longrightarrow> error_penalty t = 20"
    "3 \<le> length (errors t) \<longrightarrow> error_penalty t = 30"
    by (auto simp: error_penalty_def)
  ultimately show ?thesis using link by blast
qed

theorem error_term_witness:
  "responses demo \<noteq> [] \<and> length (errors demo) = 1 \<and> error_penalty demo = 10 \<and>
   calculate_misery (demo\<lparr>errors := []\<rparr>) = Inr 44 \<and> calculate_misery demo = Inr 54 \<and>
   3 \<le> length (errors score80) \<and> error_penalty score80 = 30"
proof -
  have ne: "responses demo \<noteq> []" by code_simp
  have one: "length (errors demo) = 1" by code_simp
  have ne8: "responses score80 \<noteq> []" by code_simp
  have three: "3 \<le> length (errors score80)" by code_simp
  have base: "calculate_misery (demo\<lparr>errors := []\<rparr>) = Inr 44" by code_simp
  have "error_penalty demo = 10" using error_term [OF ne] one by blast
  moreover have "calculate_misery demo =
       (case calculate_misery (demo\<lparr>errors := []\<rparr>) of
          Inl e \<Rightarrow> Inl e
        | Inr v0 \<Rightarrow> Inr (v0 + error_penalty demo))"
    using error_term [OF ne] by blast
  moreover have "error_penalty score80 = 30" using error_term [OF ne8] three by blast
  ultimately show ?thesis using ne one three base by simp
qed

text \<open>
  Claim C4. With at least one response logged, the structural term is the smaller of
  30 and twice the number of opening braces and opening brackets in the compact
  encoding of the most recent payload. Every tracker with the same most recent
  payload has the same structural term, and the term is the third summand of the
  score.
\<close>

theorem structural_term:
  "responses t \<noteq> [] \<Longrightarrow>
     structural_penalty t =
       (case compact_dumps (data (last (responses t))) of
          Inl e \<Rightarrow> Inl e
        | Inr s \<Rightarrow> Inr (of_int (min 30 (2 * (count_char s CHR ''{'' + count_char s CHR ''[''))))) \<and>
     (\<forall>t'. responses t' \<noteq> [] \<and> data (last (responses t')) = data (last (responses t))
        \<longrightarrow> structural_penalty t' = structural_penalty t) \<and>
     calculate_misery t =
       (case inconsistency_penalty t of
          Inl e \<Rightarrow> Inl e
        | Inr a \<Rightarrow> (case structural_penalty t of
                      Inl e \<Rightarrow> Inl e
                    | Inr s \<Rightarrow> Inr (a + error_penalty t + s)))"
proof -
  assume ne: "responses t \<noteq> []"
  let ?v = "data (last (responses t))"
  have cnt: "count_char (render '', '' '': '' False ?v) c = count_char (render '','' '':'' False ?v) c"
    if "c = CHR ''{'' \<or> c = CHR ''[''" for c
    using that by (intro count_char_render_seps) auto
  have "structural_penalty t =
       (case compact_dumps ?v of
          Inl e \<Rightarrow> Inl e
        | Inr s \<Rightarrow> Inr (of_int (min 30 (2 * (count_char s CHR ''{'' + count_char s CHR ''['')))))"
    using ne by (simp add: structural_penalty_def dumps_plain compact_dumps_render cnt mult.commute)
  moreover have "\<forall>t'. responses t' \<noteq> [] \<and> data (last (responses t')) = ?v
        \<longrightarrow> structural_penalty t' = structural_penalty t"
    using ne by (simp add: structural_penalty_def)
  ultimately show ?thesis using calculate_misery_sum [OF ne] by blast
qed

theorem structural_term_witness:
  "responses demo \<noteq> [] \<and> structural_penalty demo = Inr 4 \<and>
   structural_penalty stale_object = structural_penalty demo"
proof -
  have ne: "responses demo \<noteq> []" by code_simp
  have enc: "encodable demo_second" by code_simp
  have c: "compact_dumps (data (last (responses demo)))
      = Inr (render '','' '':'' False demo_second)"
    using enc
    by (simp add: compact_dumps_render demo_def log_response_def log_error_def init_def)
  have n: "count_char (render '','' '':'' False demo_second) CHR ''{''
      + count_char (render '','' '':'' False demo_second) CHR ''['' = 2"
    by code_simp
  have "structural_penalty demo =
       (case compact_dumps (data (last (responses demo))) of
          Inl e \<Rightarrow> Inl e
        | Inr s \<Rightarrow> Inr (of_int (min 30 (2 * (count_char s CHR ''{'' + count_char s CHR ''['')))))"
    using structural_term [OF ne] by blast
  then have four: "structural_penalty demo = Inr 4" by (simp add: c n)
  have "responses stale_object \<noteq> [] \<and>
      data (last (responses stale_object)) = data (last (responses demo))"
    by code_simp
  then have "structural_penalty stale_object = structural_penalty demo"
    using structural_term [OF ne] by blast
  with ne four show ?thesis by simp
qed

text \<open>
  Claim C5. On a tracker with no logged response \<^verbatim>\<open>calculate_misery\<close> returns
  0, whatever errors have been logged.
\<close>

theorem no_responses_zero: "responses t = [] \<Longrightarrow> calculate_misery t = Inr 0"
  by (simp add: calculate_misery_def)

theorem no_responses_zero_witness:
  "responses errors_only = [] \<and> length (errors errors_only) = 2 \<and>
   calculate_misery errors_only = Inr 0"
proof -
  have h: "responses errors_only = []" by code_simp
  have "length (errors errors_only) = 2" by code_simp
  with h no_responses_zero [OF h] show ?thesis by simp
qed

text \<open>
  Claim C6. \<^verbatim>\<open>get_diagnosis\<close> returns the name of the API followed by the message
  of the tier of the score: below 20, from 20 and below 50, from 50 and below 80, and
  from 80. The scores 20 and 80 themselves belong to the second and to the fourth
  tier.
\<close>

theorem diagnosis_tiers:
  "calculate_misery t = Inr s \<Longrightarrow>
     (s < 20 \<longrightarrow> get_diagnosis t
        = Inr (api_name t @ '': Suspiciously stable. Check if it's actually running.'')) \<and>
     (20 \<le> s \<and> s < 50 \<longrightarrow> get_diagnosis t
        = Inr (api_name t @ '': Mild annoyance. You'll only cry a little.'')) \<and>
     (50 \<le> s \<and> s < 80 \<longrightarrow> get_diagnosis t
        = Inr (api_name t @ '': Significant suffering. Time for a strong drink.'')) \<and>
     (80 \<le> s \<longrightarrow> get_diagnosis t
        = Inr (api_name t @ '': CRITICAL. Abandon all hope ye who integrate here.''))"
  by (simp add: get_diagnosis_def)

theorem diagnosis_tiers_witness:
  "calculate_misery score20 = Inr 20 \<and>
   get_diagnosis score20 = Inr ''A: Mild annoyance. You'll only cry a little.'' \<and>
   calculate_misery score80 = Inr 80 \<and>
   get_diagnosis score80 = Inr ''B: CRITICAL. Abandon all hope ye who integrate here.''"
proof -
  have s20: "calculate_misery score20 = Inr 20" by code_simp
  have s80: "calculate_misery score80 = Inr 80" by code_simp
  have n20: "api_name score20 = ''A''" by code_simp
  have n80: "api_name score80 = ''B''" by code_simp
  show ?thesis
    using s20 s80 diagnosis_tiers [OF s20] diagnosis_tiers [OF s80] by (simp add: n20 n80)
qed

text \<open>
  Claim C7, as the code has it. The two logging methods return normally for every
  value. \<^verbatim>\<open>calculate_misery\<close> raises \<open>TypeError\<close> exactly when an encoding it
  asks for is refused: with two or more responses logged, when a payload of the two
  most recent ones is not serializable (it holds an object without an encoding, or a
  dictionary whose keys cannot be sorted); with one or more logged, when the most
  recent payload is not encodable. So it raises right after a response that is not
  encodable has been logged. No error message is ever encoded, so logging one never
  changes whether it raises, and neither does a response older than the last two.
\<close>

theorem serialization_deferred:
  "fst (exec (LogResponse now v) t) = Returned_None \<and>
   fst (exec (LogError now v) t) = Returned_None \<and>
   (calculate_misery t = Inl TypeError \<longleftrightarrow>
      (1 < length (responses t) \<and> (\<exists>p\<in>set (last_two_payloads t). \<not> serializable p)) \<or>
      (responses t \<noteq> [] \<and> \<not> encodable (data (last (responses t))))) \<and>
   (\<not> encodable v \<longrightarrow> calculate_misery (log_response now v t) = Inl TypeError) \<and>
   (isl (calculate_misery (log_error now v t)) \<longleftrightarrow> isl (calculate_misery t)) \<and>
   (2 \<le> length (responses t) \<longrightarrow>
      calculate_misery (t\<lparr>responses := r # responses t\<rparr>) = calculate_misery t)"
proof -
  have "calculate_misery (log_error now v t) = Inl TypeError \<longleftrightarrow> calculate_misery t = Inl TypeError"
    unfolding calculate_misery_raises_iff
    by (simp add: last_two_payloads_def log_error_def)
  then have errs: "isl (calculate_misery (log_error now v t)) \<longleftrightarrow> isl (calculate_misery t)"
    using sum_Inl_cases [of "calculate_misery (log_error now v t)"] sum_Inl_cases [of "calculate_misery t"]
    by auto
  have resp: "\<not> encodable v \<longrightarrow> calculate_misery (log_response now v t) = Inl TypeError"
    unfolding calculate_misery_raises_iff by (simp add: log_response_def)
  have old: "2 \<le> length (responses t) \<longrightarrow>
      calculate_misery (t\<lparr>responses := r # responses t\<rparr>) = calculate_misery t"
  proof
    assume "2 \<le> length (responses t)"
    then have "last_two_payloads (t\<lparr>responses := r # responses t\<rparr>) = last_two_payloads t"
      by (rule last_two_older)
    then show "calculate_misery (t\<lparr>responses := r # responses t\<rparr>) = calculate_misery t"
      by (rule calculate_misery_last_two) simp
  qed
  have logs: "fst (exec (LogResponse now v) t) = Returned_None"
    "fst (exec (LogError now v) t) = Returned_None"
    by simp_all
  show ?thesis
    by (intro conjI logs calculate_misery_raises_iff resp errs old)
qed

theorem serialization_deferred_witness:
  "fst (exec (LogResponse ''t'' PObject) demo) = Returned_None \<and>
   fst (exec (LogError ''t'' PObject) demo) = Returned_None \<and>
   calculate_misery (log_response ''t'' PObject demo) = Inl TypeError \<and>
   calculate_misery fresh_object = Inl TypeError \<and>
   calculate_misery stale_object \<noteq> Inl TypeError \<and>
   encodable mixed_keys \<and> \<not> serializable mixed_keys \<and>
   calculate_misery mixed_once \<noteq> Inl TypeError \<and>
   calculate_misery mixed_twice = Inl TypeError"
proof -
  note at_demo = serialization_deferred [of "''t''" PObject demo "\<lparr>timestamp = ''t0'', data = PNone\<rparr>"]
  note iff_fresh = serialization_deferred [of "''t''" PObject fresh_object
      "\<lparr>timestamp = ''t0'', data = PNone\<rparr>", THEN conjunct2, THEN conjunct2, THEN conjunct1]
  note iff_stale = serialization_deferred [of "''t''" PObject stale_object
      "\<lparr>timestamp = ''t0'', data = PNone\<rparr>", THEN conjunct2, THEN conjunct2, THEN conjunct1]
  note iff_once = serialization_deferred [of "''t''" PObject mixed_once
      "\<lparr>timestamp = ''t0'', data = PNone\<rparr>", THEN conjunct2, THEN conjunct2, THEN conjunct1]
  note iff_twice = serialization_deferred [of "''t''" PObject mixed_twice
      "\<lparr>timestamp = ''t0'', data = PNone\<rparr>", THEN conjunct2, THEN conjunct2, THEN conjunct1]
  have obj: "\<not> encodable PObject" by code_simp
  have logs: "fst (exec (LogResponse ''t'' PObject) demo) = Returned_None"
    "fst (exec (LogError ''t'' PObject) demo) = Returned_None"
    using at_demo by blast+
  have after: "calculate_misery (log_response ''t'' PObject demo) = Inl TypeError"
    using at_demo obj by blast
  have fresh: "calculate_misery fresh_object = Inl TypeError"
    unfolding iff_fresh by code_simp
  have stale: "calculate_misery stale_object \<noteq> Inl TypeError"
    unfolding iff_stale by code_simp
  have enc: "encodable mixed_keys" by code_simp
  have ser: "\<not> serializable mixed_keys" by code_simp
  have once: "calculate_misery mixed_once \<noteq> Inl TypeError"
    unfolding iff_once by code_simp
  have twice: "calculate_misery mixed_twice = Inl TypeError"
    unfolding iff_twice by code_simp
  show ?thesis
    by (intro conjI logs after fresh stale enc ser once twice)
qed

text \<open>
  The claim as the specification words it fails: a value that is not serializable,
  passed to \<^verbatim>\<open>log_error\<close> or logged as a response before two later ones, causes no
  error when the score is calculated.
\<close>

theorem serialization_deferred_counterexample:
  "\<not> serializable PObject \<and>
   calculate_misery (log_error ''t'' PObject demo) = Inr 64 \<and>
   calculate_misery stale_object = Inr 54"
  by code_simp

text \<open>
  Claim C8. Two trackers whose two most recent payloads agree (or whose only
  payloads agree, or that both have none) and that hold the same number of errors
  get the same result from \<^verbatim>\<open>calculate_misery\<close>: older responses, timestamps,
  the name and the error messages play no part.
\<close>

theorem misery_depends_only_on:
  assumes "last_two_payloads t1 = last_two_payloads t2"
    and "length (errors t1) = length (errors t2)"
  shows "calculate_misery t1 = calculate_misery t2"
  using assms by (rule calculate_misery_last_two)

theorem misery_depends_only_on_witness:
  "last_two_payloads stale_object = last_two_payloads demo \<and>
   length (errors stale_object) = length (errors demo) \<and>
   responses stale_object \<noteq> responses demo \<and> errors stale_object \<noteq> errors demo \<and>
   api_name stale_object \<noteq> api_name demo \<and>
   calculate_misery stale_object = calculate_misery demo"
proof -
  have h1: "last_two_payloads stale_object = last_two_payloads demo" by code_simp
  have h2: "length (errors stale_object) = length (errors demo)" by code_simp
  have d: "responses stale_object \<noteq> responses demo" "errors stale_object \<noteq> errors demo"
    "api_name stale_object \<noteq> api_name demo"
    by (simp_all add: stale_object_def demo_def log_response_def log_error_def init_def)
  show ?thesis using h1 h2 d misery_depends_only_on [OF h1 h2] by simp
qed

text \<open>
  Claim C9. \<^verbatim>\<open>log_response\<close> appends one record to the responses and
  \<^verbatim>\<open>log_error\<close> one record to the errors, and each leaves everything else as it
  was; \<^verbatim>\<open>calculate_misery\<close> and \<^verbatim>\<open>get_diagnosis\<close> leave the tracker as it was.
  So after any sequence of calls the responses and the errors are the ones held
  before, followed by the logged records in the order of the calls, and the name is
  the same.
\<close>

theorem append_only_frame:
  "snd (exec (LogResponse now v) t)
      = t\<lparr>responses := responses t @ [\<lparr>timestamp = now, data = v\<rparr>]\<rparr> \<and>
   snd (exec (LogError now' m) t)
      = t\<lparr>errors := errors t @ [\<lparr>error_record.timestamp = now', message = m\<rparr>]\<rparr> \<and>
   snd (exec CalculateMisery t) = t \<and>
   snd (exec GetDiagnosis t) = t \<and>
   responses (run cs t) = responses t @ logged_responses cs \<and>
   errors (run cs t) = errors t @ logged_errors cs \<and>
   api_name (run cs t) = api_name t"
  by (simp add: run_append_only log_response_def log_error_def)

theorem append_only_frame_witness:
  "responses (run [LogResponse ''t1'' demo_first, CalculateMisery, LogError ''t2'' PObject,
                   GetDiagnosis, LogResponse ''t3'' demo_first] demo)
     = responses demo @ [\<lparr>timestamp = ''t1'', data = demo_first\<rparr>,
                         \<lparr>timestamp = ''t3'', data = demo_first\<rparr>] \<and>
   errors (run [LogResponse ''t1'' demo_first, CalculateMisery, LogError ''t2'' PObject,
                GetDiagnosis, LogResponse ''t3'' demo_first] demo)
     = errors demo @ [\<lparr>error_record.timestamp = ''t2'', message = PObject\<rparr>] \<and>
   api_name (run [LogResponse ''t1'' demo_first, CalculateMisery, LogError ''t2'' PObject,
                  GetDiagnosis, LogResponse ''t3'' demo_first] demo) = api_name demo"
  using append_only_frame [of "''t1''" demo_first demo "''t2''" PObject
      "[LogResponse ''t1'' demo_first, CalculateMisery, LogError ''t2'' PObject,
        GetDiagnosis, LogResponse ''t3'' demo_first]"]
  by (simp del: run.simps exec.simps)

text \<open>
  Claim C10. With serializable payloads the score is an even integer from 0 to 100.
  With at least one response it is the plain sum of the three terms: the first is 0
  or 40, the other two lie between 0 and 30, so the clamp at 100 leaves the sum as it
  is. Float arithmetic gives the same score: whatever rounding fixes the integers from
  0 to 100, as the rounding to a float does, no addition is rounded.
\<close>

theorem misery_even_sum:
  "(\<forall>r\<in>set (responses t). serializable (data r)) \<Longrightarrow>
     (\<exists>k::int. 0 \<le> k \<and> k \<le> 50 \<and> calculate_misery t = Inr (of_int (2 * k))) \<and>
     (responses t \<noteq> [] \<longrightarrow>
        (\<exists>a s. inconsistency_penalty t = Inr a \<and> structural_penalty t = Inr s \<and>
               (a = 0 \<or> a = 40) \<and> 0 \<le> error_penalty t \<and> error_penalty t \<le> 30 \<and>
               0 \<le> s \<and> s \<le> 30 \<and>
               min 100 (a + error_penalty t + s) = a + error_penalty t + s \<and>
               calculate_misery t = Inr (a + error_penalty t + s))) \<and>
     (\<forall>rnd. (\<forall>n::int. 0 \<le> n \<and> n \<le> 100 \<longrightarrow> rnd (of_int n) = of_int n)
        \<longrightarrow> calculate_misery_fp rnd t = calculate_misery t)"
proof -
  assume ser: "\<forall>r\<in>set (responses t). serializable (data r)"
  have sum: "(\<exists>k::int. 0 \<le> k \<and> k \<le> 50 \<and> calculate_misery t = Inr (of_int (2 * k))) \<and>
     (responses t \<noteq> [] \<longrightarrow>
        (\<exists>a s. inconsistency_penalty t = Inr a \<and> structural_penalty t = Inr s \<and>
               (a = 0 \<or> a = 40) \<and> 0 \<le> error_penalty t \<and> error_penalty t \<le> 30 \<and>
               0 \<le> s \<and> s \<le> 30 \<and>
               min 100 (a + error_penalty t + s) = a + error_penalty t + s \<and>
               calculate_misery t = Inr (a + error_penalty t + s)))"
  proof (cases "responses t = []")
    case True
    then have "calculate_misery t = Inr (of_int (2 * 0))" by (simp add: calculate_misery_def)
    with True show ?thesis by (intro conjI exI [of _ "0::int"]) simp_all
  next
    case False
    obtain v where v: "calculate_misery t = Inr v"
      using calculate_misery_total [OF last_two_of_responses [OF ser]] by blast
    then obtain a s where a: "inconsistency_penalty t = Inr a" and s: "structural_penalty t = Inr s"
      and sum: "v = a + error_penalty t + s"
      by (auto simp: calculate_misery_sum [OF False] split: sum.splits)
    note av = inconsistency_values [OF a]
    note eb = error_penalty_bounds [of t]
    note sb = structural_bounds [OF s]
    obtain ka :: int where ka: "a = of_int (2 * ka)" "0 \<le> ka" "ka \<le> 20"
    proof (cases "a = 0")
      case True
      then show ?thesis using that [of 0] by simp
    next
      case False
      with av have "a = 40" by simp
      then show ?thesis using that [of 20] by simp
    qed
    define ke where "ke = min 15 (5 * int (length (errors t)))"
    have ke: "error_penalty t = of_int (2 * ke)" "0 \<le> ke" "ke \<le> 15"
      by (auto simp: ke_def error_penalty_def min_def)
    obtain sample where sample: "dumps False (data (last (responses t))) = Inr sample"
      using s False by (auto simp: structural_penalty_def split: sum.splits)
    define ks where "ks = min 15 (count_char sample CHR ''{'' + count_char sample CHR ''['')"
    have ks: "s = of_int (2 * ks)" "0 \<le> ks" "ks \<le> 15"
      using s False sample count_char_nonneg [of sample "CHR ''{''"] count_char_nonneg [of sample "CHR ''[''"]
      by (auto simp: ks_def structural_penalty_def min_def)
    have "v = of_int (2 * (ka + ke + ks))"
      unfolding sum ka(1) ke(1) ks(1) by simp
    moreover have "0 \<le> ka + ke + ks" "ka + ke + ks \<le> 50"
      using ka ke ks by simp_all
    ultimately have "\<exists>k::int. 0 \<le> k \<and> k \<le> 50 \<and> calculate_misery t = Inr (of_int (2 * k))"
      using v by blast
    moreover have "min 100 (a + error_penalty t + s) = a + error_penalty t + s"
      using av eb sb by auto
    ultimately show ?thesis
      using a s av eb sb v sum by auto
  qed
  note sum1 = sum [THEN conjunct1] and sum2 = sum [THEN conjunct2]
  have fp: "\<forall>rnd. (\<forall>n::int. 0 \<le> n \<and> n \<le> 100 \<longrightarrow> rnd (of_int n) = of_int n)
        \<longrightarrow> calculate_misery_fp rnd t = calculate_misery t"
    by (intro allI impI) (rule calculate_misery_fp_exact)
  show ?thesis by (intro conjI sum1 sum2 fp)
qed

theorem misery_even_sum_witness:
  "list_all (\<lambda>r. serializable (data r)) (responses demo) \<and> responses demo \<noteq> [] \<and>
   calculate_misery demo = Inr (of_int (2 * 27)) \<and>
   (\<exists>a s. inconsistency_penalty demo = Inr a \<and> structural_penalty demo = Inr s \<and>
          calculate_misery demo = Inr (a + error_penalty demo + s)) \<and>
   calculate_misery_fp (\<lambda>x. of_int \<lfloor>x\<rfloor>) demo = Inr 54"
proof -
  have h: "\<forall>r\<in>set (responses demo). serializable (data r)" by code_simp
  have ne: "responses demo \<noteq> []" by code_simp
  have v: "calculate_misery demo = Inr (of_int (2 * 27))" by code_simp
  note all = misery_even_sum [OF h]
  note sum2 = all [THEN conjunct2, THEN conjunct1, rule_format, OF ne]
  note fp = all [THEN conjunct2, THEN conjunct2, rule_format]
  have terms: "\<exists>a s. inconsistency_penalty demo = Inr a \<and> structural_penalty demo = Inr s \<and>
          calculate_misery demo = Inr (a + error_penalty demo + s)"
    using sum2 by blast
  have ser: "list_all (\<lambda>r. serializable (data r)) (responses demo)"
    using h by (simp only: list_all_iff)
  have "calculate_misery_fp (\<lambda>x. of_int \<lfloor>x\<rfloor>) demo = calculate_misery demo"
    by (rule fp) simp
  with v have fl: "calculate_misery_fp (\<lambda>x. of_int \<lfloor>x\<rfloor>) demo = Inr 54" by simp
  show ?thesis by (intro conjI ser ne v terms fl)
qed

end
